theory Spec2Isabelle
  imports Complex_Main
begin

section \<open>Exceptions and floating-point values\<close>

text \<open>
  The selectors and the recognizer catch \<^verbatim>\<open>ValueError\<close> only (\<^verbatim>\<open>except ValueError\<close>), while
  \<^verbatim>\<open>base_model\<close> has a bare \<^verbatim>\<open>except\<close>. The model therefore keeps the kind of an exception:
  every other exception class is \<open>OtherError\<close>, apart from the two lookup errors that the
  modelled code can raise itself.
\<close>

datatype error = ValueError | IndexError | KeyError | OtherError

text \<open>
  Log-likelihoods and criteria are Python floats. A float is modelled by its exact real
  value, or by one of the three special values; rounding and overflow are not modelled.
  The special values matter for the control flow: \<^verbatim>\<open>np.mean([])\<close> is \<^verbatim>\<open>nan\<close>,
  \<^verbatim>\<open>np.log(0)\<close> is \<^verbatim>\<open>-inf\<close>, and every comparison with \<^verbatim>\<open>nan\<close> is false.
\<close>

datatype npfloat = Fl real | PInf | MInf | NaN

fun fneg :: "npfloat \<Rightarrow> npfloat" where
  "fneg (Fl a) = Fl (- a)"
| "fneg PInf = MInf"
| "fneg MInf = PInf"
| "fneg NaN = NaN"

fun fadd :: "npfloat \<Rightarrow> npfloat \<Rightarrow> npfloat" where
  "fadd (Fl a) (Fl b) = Fl (a + b)"
| "fadd NaN _ = NaN"
| "fadd _ NaN = NaN"
| "fadd PInf MInf = NaN"
| "fadd MInf PInf = NaN"
| "fadd PInf _ = PInf"
| "fadd _ PInf = PInf"
| "fadd MInf _ = MInf"
| "fadd _ MInf = MInf"

definition fsub :: "npfloat \<Rightarrow> npfloat \<Rightarrow> npfloat" where
  "fsub a b = fadd a (fneg b)"

fun fmul :: "npfloat \<Rightarrow> npfloat \<Rightarrow> npfloat" where
  "fmul (Fl a) (Fl b) = Fl (a * b)"
| "fmul NaN _ = NaN"
| "fmul _ NaN = NaN"
| "fmul (Fl a) PInf = (if a = 0 then NaN else if 0 < a then PInf else MInf)"
| "fmul (Fl a) MInf = (if a = 0 then NaN else if 0 < a then MInf else PInf)"
| "fmul PInf (Fl b) = (if b = 0 then NaN else if 0 < b then PInf else MInf)"
| "fmul MInf (Fl b) = (if b = 0 then NaN else if 0 < b then MInf else PInf)"
| "fmul PInf PInf = PInf"
| "fmul PInf MInf = MInf"
| "fmul MInf PInf = MInf"
| "fmul MInf MInf = PInf"

text \<open>Division of a float by a positive count, as \<^verbatim>\<open>np.mean\<close> needs it.\<close>

fun fdiv_count :: "npfloat \<Rightarrow> nat \<Rightarrow> npfloat" where
  "fdiv_count (Fl a) k = (if k = 0 then NaN else Fl (a / real k))"
| "fdiv_count PInf k = PInf"
| "fdiv_count MInf k = MInf"
| "fdiv_count NaN k = NaN"

text \<open>\<^verbatim>\<open>a < b\<close> on floats: false as soon as one side is \<^verbatim>\<open>nan\<close>.\<close>

fun flt :: "npfloat \<Rightarrow> npfloat \<Rightarrow> bool" where
  "flt (Fl a) (Fl b) = (a < b)"
| "flt NaN _ = False"
| "flt _ NaN = False"
| "flt MInf MInf = False"
| "flt MInf _ = True"
| "flt PInf _ = False"
| "flt _ PInf = True"
| "flt _ MInf = False"

definition fgt :: "npfloat \<Rightarrow> npfloat \<Rightarrow> bool" where
  "fgt a b = flt b a"

definition np_log :: "nat \<Rightarrow> npfloat" where
  "np_log k = (if k = 0 then MInf else Fl (ln (real k)))"

definition np_mean :: "npfloat list \<Rightarrow> npfloat" where
  "np_mean ls = (if ls = [] then NaN else fdiv_count (foldl fadd (Fl 0) ls) (length ls))"

section \<open>External collaborators\<close>

text \<open>
  \<^verbatim>\<open>GaussianHMM\<close> (hmmlearn) and \<^verbatim>\<open>KFold\<close> (scikit-learn) are libraries, not code of the
  repository: they are parameters of the model. \<open>hmm_fit n random_state X lengths\<close> stands
  for \<^verbatim>\<open>GaussianHMM(n_components=n, covariance_type="diag", n_iter=1000,
  random_state=random_state, verbose=False).fit(X, lengths)\<close> and yields the fitted
  parameters or the exception raised; \<open>hmm_score\<close> stands for \<^verbatim>\<open>model.score(X, lengths)\<close>;
  \<open>KFold_split k seqs\<close> stands for \<^verbatim>\<open>KFold(n_splits=k).split(seqs)\<close> and yields the list of
  (train indices, test indices) pairs or the exception raised.
\<close>

record 'p GaussianHMM =
  n_components :: int
  params :: 'p

record ('x, 'p) library =
  hmm_fit :: "int \<Rightarrow> int \<Rightarrow> 'x list \<Rightarrow> int list \<Rightarrow> error + 'p"
  hmm_score :: "'p GaussianHMM \<Rightarrow> 'x list \<Rightarrow> int list \<Rightarrow> error + npfloat"
  KFold_split :: "nat \<Rightarrow> 'x list list \<Rightarrow> error + (nat list \<times> nat list) list"

text \<open>
  The constructor stores \<^verbatim>\<open>n_components\<close> in the object and \<^verbatim>\<open>fit\<close> returns the object
  itself, so a fitted model carries the state count it was requested with.
\<close>

definition GaussianHMM_fit ::
  "('x, 'p) library \<Rightarrow> int \<Rightarrow> int \<Rightarrow> 'x list \<Rightarrow> int list \<Rightarrow> error + 'p GaussianHMM" where
  "GaussianHMM_fit L n rs dat lens =
     (case hmm_fit L n rs dat lens of
        Inl e \<Rightarrow> Inl e
      | Inr p \<Rightarrow> Inr \<lparr>n_components = n, params = p\<rparr>)"

text \<open>
  Modelled from the spec: \<^verbatim>\<open>asl_utils.combine_sequences\<close> is not under src. It concatenates
  the sequences at the given indices into one observation list and returns it with the
  list of their lengths; an index out of range raises \<^verbatim>\<open>IndexError\<close>.
\<close>

fun combine_sequences :: "nat list \<Rightarrow> 'x list list \<Rightarrow> error + ('x list \<times> int list)" where
  "combine_sequences [] seqs = Inr ([], [])"
| "combine_sequences (idx # rest) seqs =
     (if idx < length seqs then
        (case combine_sequences rest seqs of
           Inl e \<Rightarrow> Inl e
         | Inr (xs, ls) \<Rightarrow> Inr (seqs ! idx @ xs, int (length (seqs ! idx)) # ls))
      else Inl IndexError)"

section \<open>ModelSelector\<close>

text \<open>The two dictionaries are association lists: \<^verbatim>\<open>hwords.items()\<close> is iterated in order.\<close>

record 'x ModelSelector =
  words :: "(string \<times> 'x list list) list"
  hwords :: "(string \<times> 'x list \<times> int list) list"
  sequences :: "'x list list"
  X :: "'x list"
  lengths :: "int list"
  this_word :: string
  n_constant :: int
  min_n_components :: int
  max_n_components :: int
  random_state :: int
  verbose :: bool

definition ModelSelector_init ::
  "(string \<times> 'x list list) list \<Rightarrow> (string \<times> 'x list \<times> int list) list \<Rightarrow> string \<Rightarrow>
   int \<Rightarrow> int \<Rightarrow> int \<Rightarrow> int \<Rightarrow> bool \<Rightarrow> error + 'x ModelSelector" where
  "ModelSelector_init all_word_sequences all_word_Xlengths word nc min_n max_n rs vb =
     (case map_of all_word_sequences word of
        None \<Rightarrow> Inl KeyError
      | Some seqs \<Rightarrow>
          (case map_of all_word_Xlengths word of
             None \<Rightarrow> Inl KeyError
           | Some (dat, lens) \<Rightarrow>
               Inr \<lparr>words = all_word_sequences, hwords = all_word_Xlengths,
                    sequences = seqs, X = dat, lengths = lens, this_word = word,
                    n_constant = nc, min_n_components = min_n, max_n_components = max_n,
                    random_state = rs, verbose = vb\<rparr>))"

text \<open>The defaults of the constructor: \<^verbatim>\<open>n_constant=3, min_n_components=2,
  max_n_components=10, random_state=14, verbose=False\<close>.\<close>

definition ModelSelector_init_default ::
  "(string \<times> 'x list list) list \<Rightarrow> (string \<times> 'x list \<times> int list) list \<Rightarrow> string \<Rightarrow>
   error + 'x ModelSelector" where
  "ModelSelector_init_default all_word_sequences all_word_Xlengths word =
     ModelSelector_init all_word_sequences all_word_Xlengths word 3 2 10 14 False"

text \<open>\<^verbatim>\<open>base_model\<close>: the bare \<^verbatim>\<open>except\<close> turns every exception of the fit into \<^verbatim>\<open>None\<close>.\<close>

definition base_model ::
  "('x, 'p) library \<Rightarrow> 'x ModelSelector \<Rightarrow> int \<Rightarrow> 'p GaussianHMM option" where
  "base_model L self num_states =
     (case GaussianHMM_fit L num_states (random_state self) (X self) (lengths self) of
        Inr hmm_model \<Rightarrow> Some hmm_model
      | Inl e \<Rightarrow> None)"

subsection \<open>SelectorConstant\<close>

definition SelectorConstant_select ::
  "('x, 'p) library \<Rightarrow> 'x ModelSelector \<Rightarrow> error + 'p GaussianHMM option" where
  "SelectorConstant_select L self =
     (let best_num_components = n_constant self
      in Inr (base_model L self best_num_components))"

subsection \<open>SelectorBIC\<close>

text \<open>The body of the \<^verbatim>\<open>try\<close> up to the value of \<^verbatim>\<open>bic\<close>, for the candidate \<open>cur\<close>.\<close>

definition BIC_score ::
  "('x, 'p) library \<Rightarrow> 'x ModelSelector \<Rightarrow> int \<Rightarrow> error + npfloat" where
  "BIC_score L self cur =
     (case GaussianHMM_fit L cur (random_state self) (X self) (lengths self) of
        Inl e \<Rightarrow> Inl e
      | Inr candidate \<Rightarrow>
          (case hmm_score L candidate (X self) (lengths self) of
             Inl e \<Rightarrow> Inl e
           | Inr logL \<Rightarrow>
               (let p_val = cur ^ 2 + 2 * cur * sum_list (lengths self) - 1;
                    bic = fadd (fmul (Fl (- 2)) logL)
                               (fmul (Fl (of_int p_val)) (np_log (length (X self))))
                in Inr bic)))"

function BIC_loop ::
  "('x, 'p) library \<Rightarrow> 'x ModelSelector \<Rightarrow> int \<Rightarrow> npfloat \<Rightarrow> int \<Rightarrow> error + int" where
  "BIC_loop L self cur best_bic best_comp_count =
     (if cur \<le> max_n_components self then
        (case BIC_score L self cur of
           Inr bic \<Rightarrow>
             if flt bic best_bic then BIC_loop L self (cur + 1) bic cur
             else BIC_loop L self (cur + 1) best_bic best_comp_count
         | Inl e \<Rightarrow>
             if e = ValueError then BIC_loop L self (cur + 1) best_bic best_comp_count
             else Inl e)
      else Inr best_comp_count)"
  by pat_completeness auto
termination
  by (relation "measure (\<lambda>(L, self, cur, b, n). nat (max_n_components self + 1 - cur))") auto

definition SelectorBIC_select ::
  "('x, 'p) library \<Rightarrow> 'x ModelSelector \<Rightarrow> error + 'p GaussianHMM option" where
  "SelectorBIC_select L self =
     (case BIC_loop L self (min_n_components self) (Fl 100000000) (min_n_components self) of
        Inl e \<Rightarrow> Inl e
      | Inr best_comp_count \<Rightarrow> Inr (base_model L self best_comp_count))"

subsection \<open>SelectorDIC\<close>

text \<open>The loop over \<^verbatim>\<open>self.hwords.items()\<close>: the first exception ends it.\<close>

fun DIC_others ::
  "('x, 'p) library \<Rightarrow> 'p GaussianHMM \<Rightarrow> string \<Rightarrow> npfloat list \<Rightarrow>
   (string \<times> 'x list \<times> int list) list \<Rightarrow> error + npfloat list" where
  "DIC_others L candidate this otherLogLs [] = Inr otherLogLs"
| "DIC_others L candidate this otherLogLs ((w, alt_X, alt_lengths) # rest) =
     (if w \<noteq> this then
        (case hmm_score L candidate alt_X alt_lengths of
           Inl e \<Rightarrow> Inl e
         | Inr altLogL \<Rightarrow> DIC_others L candidate this (otherLogLs @ [altLogL]) rest)
      else DIC_others L candidate this otherLogLs rest)"

definition DIC_score ::
  "('x, 'p) library \<Rightarrow> 'x ModelSelector \<Rightarrow> int \<Rightarrow> error + npfloat" where
  "DIC_score L self cur =
     (case GaussianHMM_fit L cur (random_state self) (X self) (lengths self) of
        Inl e \<Rightarrow> Inl e
      | Inr candidate \<Rightarrow>
          (case hmm_score L candidate (X self) (lengths self) of
             Inl e \<Rightarrow> Inl e
           | Inr logL \<Rightarrow>
               (case DIC_others L candidate (this_word self) [] (hwords self) of
                  Inl e \<Rightarrow> Inl e
                | Inr otherLogLs \<Rightarrow>
                    (let meanAltLog = np_mean otherLogLs;
                         dic = fsub logL meanAltLog
                     in Inr dic))))"

function DIC_loop ::
  "('x, 'p) library \<Rightarrow> 'x ModelSelector \<Rightarrow> int \<Rightarrow> npfloat \<Rightarrow> int \<Rightarrow> error + int" where
  "DIC_loop L self cur best_dic best_comp_count =
     (if cur \<le> max_n_components self then
        (case DIC_score L self cur of
           Inr dic \<Rightarrow>
             if fgt dic best_dic then DIC_loop L self (cur + 1) dic cur
             else DIC_loop L self (cur + 1) best_dic best_comp_count
         | Inl e \<Rightarrow>
             if e = ValueError then DIC_loop L self (cur + 1) best_dic best_comp_count
             else Inl e)
      else Inr best_comp_count)"
  by pat_completeness auto
termination
  by (relation "measure (\<lambda>(L, self, cur, b, n). nat (max_n_components self + 1 - cur))") auto

definition SelectorDIC_select ::
  "('x, 'p) library \<Rightarrow> 'x ModelSelector \<Rightarrow> error + 'p GaussianHMM option" where
  "SelectorDIC_select L self =
     (case DIC_loop L self (min_n_components self) (Fl (- 100000000)) (min_n_components self) of
        Inl e \<Rightarrow> Inl e
      | Inr best_comp_count \<Rightarrow> Inr (base_model L self best_comp_count))"

subsection \<open>SelectorCV\<close>

definition split_count :: "'x list list \<Rightarrow> nat" where
  "split_count seqs = (if length seqs < 3 then length seqs else 3)"

text \<open>Line 154: the pair the fold's candidate is fitted on.\<close>

definition CV_train_pair ::
  "'x ModelSelector \<Rightarrow> nat list \<times> nat list \<Rightarrow> error + ('x list \<times> int list)" where
  "CV_train_pair self fd =
     (case fd of (cv_train_idx, cv_test_idx) \<Rightarrow> combine_sequences cv_train_idx (sequences self))"

text \<open>Line 158: the pair the fold's candidate is scored against.\<close>

definition CV_test_pair ::
  "'x ModelSelector \<Rightarrow> nat list \<times> nat list \<Rightarrow> error + ('x list \<times> int list)" where
  "CV_test_pair self fd =
     (case fd of (cv_train_idx, cv_test_idx) \<Rightarrow> combine_sequences cv_train_idx (sequences self))"

text \<open>The body of the \<^verbatim>\<open>try\<close> of one fold, up to the value of \<^verbatim>\<open>logL\<close>.\<close>

definition CV_try ::
  "('x, 'p) library \<Rightarrow> 'x ModelSelector \<Rightarrow> int \<Rightarrow> nat list \<times> nat list \<Rightarrow>
   'x list \<Rightarrow> int list \<Rightarrow> error + npfloat" where
  "CV_try L self cur fd train_X train_lengths =
     (case CV_test_pair self fd of
        Inl e \<Rightarrow> Inl e
      | Inr (test_X, test_lengths) \<Rightarrow>
          (case GaussianHMM_fit L cur (random_state self) train_X train_lengths of
             Inl e \<Rightarrow> Inl e
           | Inr candidate \<Rightarrow> hmm_score L candidate test_X test_lengths))"

text \<open>One iteration of the loop over the folds; \<open>logLs\<close> is the list built so far.\<close>

definition CV_fold ::
  "('x, 'p) library \<Rightarrow> 'x ModelSelector \<Rightarrow> int \<Rightarrow> npfloat list \<Rightarrow> nat list \<times> nat list \<Rightarrow>
   error + npfloat list" where
  "CV_fold L self cur logLs fd =
     (case CV_train_pair self fd of
        Inl e \<Rightarrow> Inl e
      | Inr (train_X, train_lengths) \<Rightarrow>
          if cur \<le> int (length train_X) then
            (case CV_try L self cur fd train_X train_lengths of
               Inr logL \<Rightarrow> Inr (logLs @ [logL])
             | Inl e \<Rightarrow> if e = ValueError then Inr logLs else Inl e)
          else Inr logLs)"

fun CV_folds ::
  "('x, 'p) library \<Rightarrow> 'x ModelSelector \<Rightarrow> int \<Rightarrow> npfloat list \<Rightarrow>
   (nat list \<times> nat list) list \<Rightarrow> error + npfloat list" where
  "CV_folds L self cur logLs [] = Inr logLs"
| "CV_folds L self cur logLs (fd # rest) =
     (case CV_fold L self cur logLs fd of
        Inl e \<Rightarrow> Inl e
      | Inr logLs' \<Rightarrow> CV_folds L self cur logLs' rest)"

text \<open>The list \<^verbatim>\<open>logLs\<close> of one candidate: \<^verbatim>\<open>KFold\<close> is called outside every \<^verbatim>\<open>try\<close>.\<close>

definition CV_logLs ::
  "('x, 'p) library \<Rightarrow> 'x ModelSelector \<Rightarrow> int \<Rightarrow> error + npfloat list" where
  "CV_logLs L self cur =
     (case KFold_split L (split_count (sequences self)) (sequences self) of
        Inl e \<Rightarrow> Inl e
      | Inr folds \<Rightarrow> CV_folds L self cur [] folds)"

function CV_loop ::
  "('x, 'p) library \<Rightarrow> 'x ModelSelector \<Rightarrow> int \<Rightarrow> npfloat \<Rightarrow> int \<Rightarrow> error + int" where
  "CV_loop L self cur best_logL best_comp_count =
     (if cur \<le> max_n_components self then
        (case CV_logLs L self cur of
           Inl e \<Rightarrow> Inl e
         | Inr logLs \<Rightarrow>
             if 0 < length logLs then
               (let avg_logL = np_mean logLs
                in if fgt avg_logL best_logL then CV_loop L self (cur + 1) avg_logL cur
                   else CV_loop L self (cur + 1) best_logL best_comp_count)
             else CV_loop L self (cur + 1) best_logL best_comp_count)
      else Inr best_comp_count)"
  by pat_completeness auto
termination
  by (relation "measure (\<lambda>(L, self, cur, b, n). nat (max_n_components self + 1 - cur))") auto

definition SelectorCV_select ::
  "('x, 'p) library \<Rightarrow> 'x ModelSelector \<Rightarrow> error + 'p GaussianHMM option" where
  "SelectorCV_select L self =
     (case CV_loop L self (min_n_components self) (Fl (- 100000)) (min_n_components self) of
        Inl e \<Rightarrow> Inl e
      | Inr best_comp_count \<Rightarrow> Inr (base_model L self best_comp_count))"

section \<open>The recognizer\<close>

text \<open>
  Modelled from the spec: \<^verbatim>\<open>asl_data.SinglesData\<close> is not under src. The test set exposes
  the item count, the word label of each item and its (X, lengths) pair; it is the list
  of its items, \<^verbatim>\<open>num_items\<close> its length.
\<close>

record 'x test_item =
  item_word :: string
  item_sequences :: "'x list list"
  item_Xlengths :: "'x list \<times> int list"

type_synonym 'x SinglesData = "'x test_item list"

definition num_items :: "'x SinglesData \<Rightarrow> nat" where
  "num_items test_set = length test_set"

text \<open>
  The loop \<^verbatim>\<open>for m_key in models\<close> over the dictionary of models, an association list in
  iteration order. The state is (\<^verbatim>\<open>p_hash\<close>, \<^verbatim>\<open>best_score\<close>, \<^verbatim>\<open>best_word\<close>).
\<close>

fun recognize_item ::
  "('x, 'p) library \<Rightarrow> (string \<times> 'p GaussianHMM) list \<Rightarrow> 'x list \<times> int list \<Rightarrow>
   (string \<rightharpoonup> npfloat) \<times> npfloat \<times> string option \<Rightarrow>
   error + (string \<rightharpoonup> npfloat) \<times> npfloat \<times> string option" where
  "recognize_item L [] Xl (p_hash, best_score, best_word) = Inr (p_hash, best_score, best_word)"
| "recognize_item L ((m_key, model) # rest) Xl (p_hash, best_score, best_word) =
     (case hmm_score L model (fst Xl) (snd Xl) of
        Inr logL \<Rightarrow>
          if fgt logL best_score
          then recognize_item L rest Xl (p_hash(m_key \<mapsto> logL), logL, Some m_key)
          else recognize_item L rest Xl (p_hash(m_key \<mapsto> logL), best_score, best_word)
      | Inl e \<Rightarrow>
          if e = ValueError then recognize_item L rest Xl (p_hash, best_score, best_word)
          else Inl e)"

text \<open>The loop \<^verbatim>\<open>for i in range(test_set.num_items)\<close>.\<close>

fun recognize_loop ::
  "('x, 'p) library \<Rightarrow> (string \<times> 'p GaussianHMM) list \<Rightarrow> 'x SinglesData \<Rightarrow>
   (string \<rightharpoonup> npfloat) list \<times> string option list \<Rightarrow>
   error + (string \<rightharpoonup> npfloat) list \<times> string option list" where
  "recognize_loop L models [] (probabilities, guesses) = Inr (probabilities, guesses)"
| "recognize_loop L models (item # rest) (probabilities, guesses) =
     (case recognize_item L models (item_Xlengths item) (Map.empty, Fl (- 1000000000), None) of
        Inl e \<Rightarrow> Inl e
      | Inr (p_hash, best_score, best_word) \<Rightarrow>
          recognize_loop L models rest (probabilities @ [p_hash], guesses @ [best_word]))"

definition recognize ::
  "('x, 'p) library \<Rightarrow> (string \<times> 'p GaussianHMM) list \<Rightarrow> 'x SinglesData \<Rightarrow>
   error + (string \<rightharpoonup> npfloat) list \<times> string option list" where
  "recognize L models test_set = recognize_loop L models test_set ([], [])"

section \<open>The shared shape of the three search loops\<close>

text \<open>
  The loops of SelectorBIC, SelectorDIC and SelectorCV have one shape: a candidate is
  scored, skipped, or raises an exception that leaves \<^verbatim>\<open>select\<close>; a scored candidate
  replaces the running best when it is strictly better. \<open>search\<close> is that shape, used
  to prove the properties of the three loops once.
\<close>

datatype outcome = Scored npfloat | Skipped | Raised error

function search ::
  "(int \<Rightarrow> outcome) \<Rightarrow> (npfloat \<Rightarrow> npfloat \<Rightarrow> bool) \<Rightarrow> int \<Rightarrow> int \<Rightarrow> npfloat \<Rightarrow> int \<Rightarrow> error + int" where
  "search ev better mx cur best_v best_n =
     (if cur \<le> mx then
        (case ev cur of
           Scored v \<Rightarrow>
             if better v best_v then search ev better mx (cur + 1) v cur
             else search ev better mx (cur + 1) best_v best_n
         | Skipped \<Rightarrow> search ev better mx (cur + 1) best_v best_n
         | Raised e \<Rightarrow> Inl e)
      else Inr best_n)"
  by pat_completeness auto
termination
  by (relation "measure (\<lambda>(ev, better, mx, cur, b, n). nat (mx + 1 - cur))") auto


definition outcome_of :: "error + npfloat \<Rightarrow> outcome" where
  "outcome_of r =
     (case r of Inr v \<Rightarrow> Scored v | Inl e \<Rightarrow> if e = ValueError then Skipped else Raised e)"

definition CV_outcome :: "('x, 'p) library \<Rightarrow> 'x ModelSelector \<Rightarrow> int \<Rightarrow> outcome" where
  "CV_outcome L self cur =
     (case CV_logLs L self cur of
        Inl e \<Rightarrow> Raised e
      | Inr logLs \<Rightarrow> if 0 < length logLs then Scored (np_mean logLs) else Skipped)"

section \<open>A small corpus for the concrete instances\<close>

text \<open>
  Frames are numbered, fitted parameters are trivial; \<open>ex_library f s\<close> is the library
  whose fit and score are given by the candidate's state count and the data, and whose
  \<^verbatim>\<open>KFold\<close> yields the three leave-one-out folds of three sequences. \<open>tabulate\<close> reads
  the recognizer's result at a list of words.
\<close>

definition ex_library ::
  "(int \<Rightarrow> nat list \<Rightarrow> error + unit) \<Rightarrow> (int \<Rightarrow> nat list \<Rightarrow> error + npfloat) \<Rightarrow> (nat, unit) library" where
  "ex_library f s =
     \<lparr>hmm_fit = (\<lambda>n rs dat lens. f n dat),
      hmm_score = (\<lambda>model dat lens. s (n_components model) dat),
      KFold_split = (\<lambda>k seqs. if k = 3 \<and> length seqs = 3
                                then Inr [([1, 2], [0]), ([0, 2], [1]), ([0, 1], [2])]
                                else Inl ValueError)\<rparr>"

definition ex_models :: "(string \<times> unit GaussianHMM) list" where
  "ex_models = [(''A'', \<lparr>n_components = 2, params = ()\<rparr>), (''B'', \<lparr>n_components = 3, params = ()\<rparr>)]"

definition ex_test_set :: "nat SinglesData" where
  "ex_test_set =
     [\<lparr>item_word = ''A'', item_sequences = [[0, 1]], item_Xlengths = ([0, 1], [2])\<rparr>,
      \<lparr>item_word = ''B'', item_sequences = [[2, 3, 4]], item_Xlengths = ([2, 3, 4], [3])\<rparr>]"

definition ex_selector :: "int \<Rightarrow> int \<Rightarrow> int \<Rightarrow> nat ModelSelector" where
  "ex_selector nc mn mx =
     \<lparr>words = [(''A'', [[0, 1], [2, 3], [4, 5]]), (''B'', [[6, 7], [8, 9]])],
      hwords = [(''A'', ([0, 1, 2, 3, 4, 5], [2, 2, 2])), (''B'', ([6, 7, 8, 9], [2, 2]))],
      sequences = [[0, 1], [2, 3], [4, 5]],
      X = [0, 1, 2, 3, 4, 5],
      lengths = [2, 2, 2],
      this_word = ''A'',
      n_constant = nc, min_n_components = mn, max_n_components = mx,
      random_state = 14, verbose = False\<rparr>"

definition tabulate ::
  "string list \<Rightarrow> error + (string \<rightharpoonup> npfloat) list \<times> string option list \<Rightarrow>
   error + npfloat option list list \<times> string option list" where
  "tabulate ws r =
     (case r of
        Inl e \<Rightarrow> Inl e
      | Inr (probabilities, guesses) \<Rightarrow> Inr (map (\<lambda>p_hash. map p_hash ws) probabilities, guesses))"



section \<open>Properties of the float comparison and of the search\<close>

declare search.simps [simp del]
declare BIC_loop.simps [simp del]
declare DIC_loop.simps [simp del]
declare CV_loop.simps [simp del]

lemma flt_irrefl: "\<not> flt a a"
  by (cases a) auto

lemma flt_trans: "flt a b \<Longrightarrow> flt b c \<Longrightarrow> flt a c"
  by (cases a; cases b; cases c) auto



lemma search_result:
  "\<forall>a b c. better a b \<longrightarrow> better b c \<longrightarrow> better a c \<Longrightarrow> \<forall>a. \<not> better a a \<Longrightarrow>
   search ev better mx cur bv bn = Inr best \<Longrightarrow>
     (best = bn \<and> (\<forall>n v. cur \<le> n \<and> n \<le> mx \<and> ev n = Scored v \<longrightarrow> \<not> better v bv))
   \<or> (cur \<le> best \<and> best \<le> mx \<and>
       (\<exists>v. ev best = Scored v \<and> better v bv \<and>
            (\<forall>n v'. cur \<le> n \<and> n \<le> mx \<and> ev n = Scored v' \<longrightarrow>
                \<not> better v' v \<and> (v' = v \<longrightarrow> best \<le> n))))"
proof (induction ev better mx cur bv bn rule: search.induct)
  case (1 ev better mx cur bv bn)
  note T = "1.prems"(1) and I = "1.prems"(2)
  have tr: "\<And>a b c. better a b \<Longrightarrow> better b c \<Longrightarrow> better a c"
    using T by blast
  have ir: "\<And>a. \<not> better a a"
    using I by blast
  have asym: "\<And>a b. better a b \<Longrightarrow> \<not> better b a"
    using tr ir by blast
  show ?case
  proof (cases "cur \<le> mx")
    case False
    with "1.prems"(3) have "best = bn" by (simp add: search.simps)
    with False show ?thesis by auto
  next
    case True
    show ?thesis
    proof (cases "ev cur")
      case (Raised e)
      with True "1.prems"(3) show ?thesis by (simp add: search.simps)
    next
      case Skipped
      with True "1.prems"(3) have r: "search ev better mx (cur + 1) bv bn = Inr best"
        by (simp add: search.simps)
      have nocur: "\<And>n v'. cur \<le> n \<and> n \<le> mx \<and> ev n = Scored v' \<Longrightarrow> cur + 1 \<le> n"
      proof -
        fix n v' assume h: "cur \<le> n \<and> n \<le> mx \<and> ev n = Scored v'"
        with Skipped have "n \<noteq> cur" by auto
        with h show "cur + 1 \<le> n" by simp
      qed
      from "1.IH"(3)[OF True Skipped T I r]
      consider (a) "best = bn" "\<forall>n v'. cur + 1 \<le> n \<and> n \<le> mx \<and> ev n = Scored v' \<longrightarrow> \<not> better v' bv"
        | (b) w where "cur + 1 \<le> best" "best \<le> mx" "ev best = Scored w" "better w bv"
            "\<forall>n v'. cur + 1 \<le> n \<and> n \<le> mx \<and> ev n = Scored v' \<longrightarrow> \<not> better v' w \<and> (v' = w \<longrightarrow> best \<le> n)"
        by blast
      then show ?thesis
      proof cases
        case a
        have "\<forall>n v'. cur \<le> n \<and> n \<le> mx \<and> ev n = Scored v' \<longrightarrow> \<not> better v' bv"
          using a(2) nocur by blast
        with a(1) show ?thesis by blast
      next
        case b
        have "\<forall>n v'. cur \<le> n \<and> n \<le> mx \<and> ev n = Scored v' \<longrightarrow> \<not> better v' w \<and> (v' = w \<longrightarrow> best \<le> n)"
          using b(5) nocur by blast
        moreover have "cur \<le> best" using b(1) by simp
        ultimately show ?thesis using b(2,3,4) by blast
      qed
    next
      case (Scored v)
      show ?thesis
      proof (cases "better v bv")
        case b: True
        with True Scored "1.prems"(3) have r: "search ev better mx (cur + 1) v cur = Inr best"
          by (simp add: search.simps)
        from "1.IH"(1)[OF True Scored b T I r]
        consider (a) "best = cur" "\<forall>n v'. cur + 1 \<le> n \<and> n \<le> mx \<and> ev n = Scored v' \<longrightarrow> \<not> better v' v"
          | (b) w where "cur + 1 \<le> best" "best \<le> mx" "ev best = Scored w" "better w v"
              "\<forall>n v'. cur + 1 \<le> n \<and> n \<le> mx \<and> ev n = Scored v' \<longrightarrow> \<not> better v' w \<and> (v' = w \<longrightarrow> best \<le> n)"
          by blast
        then show ?thesis
        proof cases
          case a
          have "\<forall>n v'. cur \<le> n \<and> n \<le> mx \<and> ev n = Scored v' \<longrightarrow> \<not> better v' v \<and> (v' = v \<longrightarrow> best \<le> n)"
          proof (intro allI impI)
            fix n v' assume h: "cur \<le> n \<and> n \<le> mx \<and> ev n = Scored v'"
            show "\<not> better v' v \<and> (v' = v \<longrightarrow> best \<le> n)"
            proof (cases "n = cur")
              case True
              with h Scored have "v' = v" by simp
              with ir a(1) True show ?thesis by simp
            next
              case False
              with h have "cur + 1 \<le> n" by simp
              with h a show ?thesis by auto
            qed
          qed
          with a(1) True Scored b show ?thesis by blast
        next
          case b2: b
          have wbv: "better w bv" using tr[OF b2(4) b] .
          have "\<forall>n v'. cur \<le> n \<and> n \<le> mx \<and> ev n = Scored v' \<longrightarrow> \<not> better v' w \<and> (v' = w \<longrightarrow> best \<le> n)"
          proof (intro allI impI)
            fix n v' assume h: "cur \<le> n \<and> n \<le> mx \<and> ev n = Scored v'"
            show "\<not> better v' w \<and> (v' = w \<longrightarrow> best \<le> n)"
            proof (cases "n = cur")
              case True
              with h Scored have "v' = v" by simp
              with asym[OF b2(4)] ir b2(4) show ?thesis by auto
            next
              case False
              with h have "cur + 1 \<le> n" by simp
              with h b2(5) show ?thesis by blast
            qed
          qed
          moreover have "cur \<le> best" using b2(1) by simp
          ultimately show ?thesis using b2(2,3) wbv by blast
        qed
      next
        case nb: False
        with True Scored "1.prems"(3) have r: "search ev better mx (cur + 1) bv bn = Inr best"
          by (simp add: search.simps)
        from "1.IH"(2)[OF True Scored nb T I r]
        consider (a) "best = bn" "\<forall>n v'. cur + 1 \<le> n \<and> n \<le> mx \<and> ev n = Scored v' \<longrightarrow> \<not> better v' bv"
          | (b) w where "cur + 1 \<le> best" "best \<le> mx" "ev best = Scored w" "better w bv"
              "\<forall>n v'. cur + 1 \<le> n \<and> n \<le> mx \<and> ev n = Scored v' \<longrightarrow> \<not> better v' w \<and> (v' = w \<longrightarrow> best \<le> n)"
          by blast
        then show ?thesis
        proof cases
          case a
          have "\<forall>n v'. cur \<le> n \<and> n \<le> mx \<and> ev n = Scored v' \<longrightarrow> \<not> better v' bv"
          proof (intro allI impI)
            fix n v' assume h: "cur \<le> n \<and> n \<le> mx \<and> ev n = Scored v'"
            show "\<not> better v' bv"
            proof (cases "n = cur")
              case True
              with h Scored have "v' = v" by simp
              with nb show ?thesis by simp
            next
              case False
              with h have "cur + 1 \<le> n" by simp
              with h a(2) show ?thesis by blast
            qed
          qed
          with a(1) show ?thesis by blast
        next
          case b2: b
          have "\<forall>n v'. cur \<le> n \<and> n \<le> mx \<and> ev n = Scored v' \<longrightarrow> \<not> better v' w \<and> (v' = w \<longrightarrow> best \<le> n)"
          proof (intro allI impI)
            fix n v' assume h: "cur \<le> n \<and> n \<le> mx \<and> ev n = Scored v'"
            show "\<not> better v' w \<and> (v' = w \<longrightarrow> best \<le> n)"
            proof (cases "n = cur")
              case True
              with h Scored have "v' = v" by simp
              moreover have "\<not> better v w" using tr[OF _ b2(4)] nb by blast
              moreover have "v \<noteq> w" using nb b2(4) by blast
              ultimately show ?thesis by simp
            next
              case False
              with h have "cur + 1 \<le> n" by simp
              with h b2(5) show ?thesis by blast
            qed
          qed
          moreover have "cur \<le> best" using b2(1) by simp
          ultimately show ?thesis using b2(2,3,4) by blast
        qed
      qed
    qed
  qed
qed

lemma search_total:
  "(\<forall>n e. cur \<le> n \<and> n \<le> mx \<longrightarrow> ev n \<noteq> Raised e) \<Longrightarrow> \<exists>best. search ev better mx cur bv bn = Inr best"
proof (induction ev better mx cur bv bn rule: search.induct)
  case (1 ev better mx cur bv bn)
  show ?case
  proof (cases "cur \<le> mx")
    case False
    then show ?thesis by (simp add: search.simps)
  next
    case True
    have later: "\<forall>n e. cur + 1 \<le> n \<and> n \<le> mx \<longrightarrow> ev n \<noteq> Raised e"
      using "1.prems" by auto
    show ?thesis
    proof (cases "ev cur")
      case (Raised e)
      with True "1.prems" show ?thesis by auto
    next
      case Skipped
      with True "1.IH"(3)[OF True Skipped later] show ?thesis
        by (subst search.simps) simp
    next
      case (Scored v)
      show ?thesis
      proof (cases "better v bv")
        case b: True
        with True Scored "1.IH"(1)[OF True Scored b later] show ?thesis
          by (subst search.simps) simp
      next
        case nb: False
        with True Scored "1.IH"(2)[OF True Scored nb later] show ?thesis
          by (subst search.simps) simp
      qed
    qed
  qed
qed

lemma search_raises:
  "search ev better mx cur bv bn = Inl e \<Longrightarrow> \<exists>n. cur \<le> n \<and> n \<le> mx \<and> ev n = Raised e"
proof (induction ev better mx cur bv bn rule: search.induct)
  case (1 ev better mx cur bv bn)
  show ?case
  proof (cases "cur \<le> mx")
    case False
    with "1.prems" show ?thesis by (simp add: search.simps)
  next
    case True
    show ?thesis
    proof (cases "ev cur")
      case (Raised e')
      with True "1.prems" have "e' = e" by (simp add: search.simps)
      with True Raised show ?thesis by auto
    next
      case Skipped
      with True "1.prems" have "search ev better mx (cur + 1) bv bn = Inl e"
        by (simp add: search.simps)
      from "1.IH"(3)[OF True Skipped this] obtain n where "cur + 1 \<le> n" "n \<le> mx" "ev n = Raised e" by blast
      then have "cur \<le> n \<and> n \<le> mx \<and> ev n = Raised e" by simp
      then show ?thesis by blast
    next
      case (Scored v)
      show ?thesis
      proof (cases "better v bv")
        case b: True
        with True Scored "1.prems" have "search ev better mx (cur + 1) v cur = Inl e"
          by (simp add: search.simps)
        from "1.IH"(1)[OF True Scored b this] obtain n where "cur + 1 \<le> n" "n \<le> mx" "ev n = Raised e" by blast
      then have "cur \<le> n \<and> n \<le> mx \<and> ev n = Raised e" by simp
      then show ?thesis by blast
      next
        case nb: False
        with True Scored "1.prems" have "search ev better mx (cur + 1) bv bn = Inl e"
          by (simp add: search.simps)
        from "1.IH"(2)[OF True Scored nb this] obtain n where "cur + 1 \<le> n" "n \<le> mx" "ev n = Raised e" by blast
      then have "cur \<le> n \<and> n \<le> mx \<and> ev n = Raised e" by simp
      then show ?thesis by blast
      qed
    qed
  qed
qed

section \<open>The three loops are instances of the search\<close>

lemma BIC_loop_search:
  "BIC_loop L self cur bv bn =
   search (\<lambda>n. outcome_of (BIC_score L self n)) flt (max_n_components self) cur bv bn"
proof (induction L self cur bv bn rule: BIC_loop.induct)
  case (1 L self cur best_bic best_comp_count)
  show ?case
    apply (subst BIC_loop.simps)
    apply (subst search.simps)
    using 1
    apply (auto simp: outcome_of_def split: sum.splits)
    done
qed

lemma DIC_loop_search:
  "DIC_loop L self cur bv bn =
   search (\<lambda>n. outcome_of (DIC_score L self n)) fgt (max_n_components self) cur bv bn"
proof (induction L self cur bv bn rule: DIC_loop.induct)
  case (1 L self cur best_dic best_comp_count)
  show ?case
    apply (subst DIC_loop.simps)
    apply (subst search.simps)
    using 1
    apply (auto simp: outcome_of_def split: sum.splits)
    done
qed

lemma CV_loop_search:
  "CV_loop L self cur bv bn =
   search (CV_outcome L self) fgt (max_n_components self) cur bv bn"
proof (induction L self cur bv bn rule: CV_loop.induct)
  case (1 L self cur best_logL best_comp_count)
  show ?case
  proof (cases "cur \<le> max_n_components self")
    case False
    then show ?thesis
      by (subst CV_loop.simps, subst search.simps) simp
  next
    case True
    show ?thesis
    proof (cases "CV_logLs L self cur")
      case (Inl e)
      then have "CV_outcome L self cur = Raised e"
        by (simp add: CV_outcome_def)
      with True Inl show ?thesis
        by (subst CV_loop.simps, subst search.simps) simp
    next
      case (Inr logLs)
      show ?thesis
      proof (cases "0 < length logLs")
        case False
        with Inr have "CV_outcome L self cur = Skipped"
          by (simp add: CV_outcome_def)
        with True Inr False "1.IH"(3)[OF True Inr] show ?thesis
          by (subst CV_loop.simps, subst search.simps) simp
      next
        case pos: True
        with Inr have o: "CV_outcome L self cur = Scored (np_mean logLs)"
          by (simp add: CV_outcome_def)
        show ?thesis
        proof (cases "fgt (np_mean logLs) best_logL")
          case True
          with \<open>cur \<le> max_n_components self\<close> Inr pos o "1.IH"(1)[OF \<open>cur \<le> max_n_components self\<close> Inr pos refl True]
          show ?thesis
            by (subst CV_loop.simps, subst search.simps) simp
        next
          case False
          with \<open>cur \<le> max_n_components self\<close> Inr pos o "1.IH"(2)[OF \<open>cur \<le> max_n_components self\<close> Inr pos refl False]
          show ?thesis
            by (subst CV_loop.simps, subst search.simps) simp
        qed
      qed
    qed
  qed
qed

section \<open>What the selectors return\<close>

lemma fgt_irrefl: "\<not> fgt a a"
  by (simp add: fgt_def flt_irrefl)

lemma fgt_trans: "fgt a b \<Longrightarrow> fgt b c \<Longrightarrow> fgt a c"
  unfolding fgt_def by (rule flt_trans)

lemma ex_selector_simps [simp]:
  "min_n_components (ex_selector nc mn mx) = mn"
  "max_n_components (ex_selector nc mn mx) = mx"
  "n_constant (ex_selector nc mn mx) = nc"
  by (simp_all add: ex_selector_def)

lemma outcome_of_Scored [simp]: "outcome_of r = Scored v \<longleftrightarrow> r = Inr v"
  by (auto simp: outcome_of_def split: sum.splits)

lemma outcome_of_Raised [simp]: "outcome_of r = Raised e \<longleftrightarrow> r = Inl e \<and> e \<noteq> ValueError"
  by (auto simp: outcome_of_def split: sum.splits)

lemma base_model_Some:
  "base_model L self k = Some m \<Longrightarrow>
   n_components m = k \<and> GaussianHMM_fit L k (random_state self) (X self) (lengths self) = Inr m"
  by (auto simp: base_model_def GaussianHMM_fit_def split: sum.splits)

lemma base_model_None:
  "base_model L self k = None \<longleftrightarrow>
   (\<exists>e. GaussianHMM_fit L k (random_state self) (X self) (lengths self) = Inl e)"
  by (auto simp: base_model_def split: sum.splits)



lemma CV_select_result:
  assumes "SelectorCV_select L self = Inr r"
  shows "\<exists>best. r = base_model L self best \<and>
     ((best = min_n_components self \<and>
       (\<forall>n v. min_n_components self \<le> n \<and> n \<le> max_n_components self \<and>
              CV_outcome L self n = Scored v \<longrightarrow> \<not> fgt v (Fl (- 100000))))
      \<or> (min_n_components self \<le> best \<and> best \<le> max_n_components self \<and>
          (\<exists>v. CV_outcome L self best = Scored v \<and> fgt v (Fl (- 100000)) \<and>
               (\<forall>n v'. min_n_components self \<le> n \<and> n \<le> max_n_components self \<and>
                       CV_outcome L self n = Scored v' \<longrightarrow> \<not> fgt v' v \<and> (v' = v \<longrightarrow> best \<le> n)))))"
proof -
  from assms obtain best where
    l: "CV_loop L self (min_n_components self) (Fl (- 100000)) (min_n_components self) = Inr best"
    and r: "r = base_model L self best"
    by (auto simp: SelectorCV_select_def split: sum.splits)
  have tr: "\<forall>a b c. fgt a b \<longrightarrow> fgt b c \<longrightarrow> fgt a c" using fgt_trans by blast
  have ir: "\<forall>a. \<not> fgt a a" using fgt_irrefl by blast
  from search_result[OF tr ir l[unfolded CV_loop_search]] r show ?thesis
    by (intro exI[of _ best]) simp
qed

lemma BIC_select_total:
  assumes "\<forall>n e. min_n_components self \<le> n \<and> n \<le> max_n_components self \<and>
              BIC_score L self n = Inl e \<longrightarrow> e = ValueError"
  shows "\<exists>best. SelectorBIC_select L self = Inr (base_model L self best)"
proof -
  have "\<forall>n e. min_n_components self \<le> n \<and> n \<le> max_n_components self \<longrightarrow>
          outcome_of (BIC_score L self n) \<noteq> Raised e"
    using assms by auto
  from search_total[OF this, of flt "Fl 100000000" "min_n_components self"] show ?thesis
    by (auto simp: SelectorBIC_select_def BIC_loop_search split: sum.splits)
qed

lemma DIC_select_total:
  assumes "\<forall>n e. min_n_components self \<le> n \<and> n \<le> max_n_components self \<and>
              DIC_score L self n = Inl e \<longrightarrow> e = ValueError"
  shows "\<exists>best. SelectorDIC_select L self = Inr (base_model L self best)"
proof -
  have "\<forall>n e. min_n_components self \<le> n \<and> n \<le> max_n_components self \<longrightarrow>
          outcome_of (DIC_score L self n) \<noteq> Raised e"
    using assms by auto
  from search_total[OF this, of fgt "Fl (- 100000000)" "min_n_components self"] show ?thesis
    by (auto simp: SelectorDIC_select_def DIC_loop_search split: sum.splits)
qed

lemma CV_select_total:
  assumes "\<forall>n e. min_n_components self \<le> n \<and> n \<le> max_n_components self \<longrightarrow>
              CV_logLs L self n \<noteq> Inl e"
  shows "\<exists>best. SelectorCV_select L self = Inr (base_model L self best)"
proof -
  have "\<forall>n e. min_n_components self \<le> n \<and> n \<le> max_n_components self \<longrightarrow>
          CV_outcome L self n \<noteq> Raised e"
    using assms by (auto simp: CV_outcome_def split: sum.splits if_splits)
  from search_total[OF this, of fgt "Fl (- 100000)" "min_n_components self"] show ?thesis
    by (auto simp: SelectorCV_select_def CV_loop_search split: sum.splits)
qed







section \<open>SelectorBIC and SelectorDIC: claims\<close>





section \<open>The recognizer: one item, then the list of items\<close>

lemma recognize_item_p_hash:
  "distinct (map fst ms) \<Longrightarrow>
   recognize_item L ms Xl (ph, bs, bw) = Inr (ph', bs', bw') \<Longrightarrow>
   ph' w = (case map_of ms w of
              None \<Rightarrow> ph w
            | Some m \<Rightarrow> (case hmm_score L m (fst Xl) (snd Xl) of
                           Inr l \<Rightarrow> Some l
                         | Inl e \<Rightarrow> ph w))"
proof (induction ms arbitrary: ph bs bw)
  case Nil
  then show ?case by simp
next
  case (Cons km rest)
  obtain k m where km: "km = (k, m)" by (cases km)
  from Cons.prems(1) km have d: "distinct (map fst rest)" and nk: "map_of rest k = None"
    by (auto simp: map_of_eq_None_iff)
  show ?case
  proof (cases "hmm_score L m (fst Xl) (snd Xl)")
    case (Inl e)
    with Cons.prems(2) km have e: "e = ValueError"
      and r: "recognize_item L rest Xl (ph, bs, bw) = Inr (ph', bs', bw')"
      by (auto split: if_splits)
    from Cons.IH[OF d r] Inl km nk show ?thesis
      by (auto split: option.splits)
  next
    case (Inr l)
    with Cons.prems(2) km obtain bs0 bw0 where
      r: "recognize_item L rest Xl (ph(k \<mapsto> l), bs0, bw0) = Inr (ph', bs', bw')"
      by (auto split: if_splits)
    from Cons.IH[OF d r] Inr km nk show ?thesis
      by (auto split: option.splits sum.splits)
  qed
qed

lemma recognize_item_best:
  "recognize_item L ms Xl (ph, bs, bw) = Inr (ph', bs', bw') \<Longrightarrow>
     (bs' = bs \<and> bw' = bw \<and>
      (\<forall>(k, m) \<in> set ms. \<forall>l. hmm_score L m (fst Xl) (snd Xl) = Inr l \<longrightarrow> \<not> fgt l bs))
   \<or> (\<exists>pre w m post. ms = pre @ (w, m) # post \<and> bw' = Some w \<and>
         hmm_score L m (fst Xl) (snd Xl) = Inr bs' \<and> fgt bs' bs \<and>
         (\<forall>(k', m') \<in> set pre. \<forall>l'. hmm_score L m' (fst Xl) (snd Xl) = Inr l' \<longrightarrow>
              \<not> fgt l' bs' \<and> l' \<noteq> bs') \<and>
         (\<forall>(k', m') \<in> set post. \<forall>l'. hmm_score L m' (fst Xl) (snd Xl) = Inr l' \<longrightarrow>
              \<not> fgt l' bs'))"
proof (induction ms arbitrary: ph bs bw)
  case Nil
  then show ?case by simp
next
  case (Cons km rest)
  obtain k m where km: "km = (k, m)" by (cases km)
  let ?sc = "\<lambda>m. hmm_score L m (fst Xl) (snd Xl)"
  show ?case
  proof (cases "?sc m")
    case (Inl e)
    with Cons.prems km have r: "recognize_item L rest Xl (ph, bs, bw) = Inr (ph', bs', bw')"
      by (auto split: if_splits)
    from Cons.IH[OF r] show ?thesis
    proof (elim disjE conjE exE)
      assume "bs' = bs" "bw' = bw"
        "\<forall>(k, m) \<in> set rest. \<forall>l. ?sc m = Inr l \<longrightarrow> \<not> fgt l bs"
      with Inl km show ?thesis by auto
    next
      fix pre w m' post
      assume h: "rest = pre @ (w, m') # post" "bw' = Some w" "?sc m' = Inr bs'" "fgt bs' bs"
        "\<forall>(k', m') \<in> set pre. \<forall>l'. ?sc m' = Inr l' \<longrightarrow> \<not> fgt l' bs' \<and> l' \<noteq> bs'"
        "\<forall>(k', m') \<in> set post. \<forall>l'. ?sc m' = Inr l' \<longrightarrow> \<not> fgt l' bs'"
      have "km # rest = (km # pre) @ (w, m') # post" using h(1) by simp
      moreover have "\<forall>(k', m') \<in> set (km # pre). \<forall>l'. ?sc m' = Inr l' \<longrightarrow> \<not> fgt l' bs' \<and> l' \<noteq> bs'"
        using h(5) Inl km by auto
      ultimately show ?thesis using h(2,3,4,6) by blast
    qed
  next
    case (Inr l)
    show ?thesis
    proof (cases "fgt l bs")
      case True
      with Inr Cons.prems km have r: "recognize_item L rest Xl (ph(k \<mapsto> l), l, Some k) = Inr (ph', bs', bw')"
        by auto
      from Cons.IH[OF r] show ?thesis
      proof (elim disjE conjE exE)
        assume h: "bs' = l" "bw' = Some k"
          "\<forall>(k, m) \<in> set rest. \<forall>l'. ?sc m = Inr l' \<longrightarrow> \<not> fgt l' l"
        have "km # rest = [] @ (k, m) # rest" using km by simp
        moreover have "\<forall>(k', m') \<in> set rest. \<forall>l'. ?sc m' = Inr l' \<longrightarrow> \<not> fgt l' bs'"
          using h(1,3) by simp
        ultimately show ?thesis using h(1,2) Inr True by (intro disjI2) fastforce
      next
        fix pre w m' post
        assume h: "rest = pre @ (w, m') # post" "bw' = Some w" "?sc m' = Inr bs'" "fgt bs' l"
          "\<forall>(k', m') \<in> set pre. \<forall>l'. ?sc m' = Inr l' \<longrightarrow> \<not> fgt l' bs' \<and> l' \<noteq> bs'"
          "\<forall>(k', m') \<in> set post. \<forall>l'. ?sc m' = Inr l' \<longrightarrow> \<not> fgt l' bs'"
        have "km # rest = (km # pre) @ (w, m') # post" using h(1) by simp
        moreover have "\<not> fgt l bs'" using h(4) fgt_trans fgt_irrefl by blast
        moreover have "l \<noteq> bs'" using h(4) fgt_irrefl by blast
        ultimately have "\<forall>(k', m') \<in> set (km # pre). \<forall>l'. ?sc m' = Inr l' \<longrightarrow> \<not> fgt l' bs' \<and> l' \<noteq> bs'"
          using h(5) Inr km by auto
        moreover have "fgt bs' bs" using fgt_trans[OF h(4) True] .
        ultimately show ?thesis using \<open>km # rest = (km # pre) @ (w, m') # post\<close> h(2,3,6) by blast
      qed
    next
      case False
      with Inr Cons.prems km have r: "recognize_item L rest Xl (ph(k \<mapsto> l), bs, bw) = Inr (ph', bs', bw')"
        by auto
      from Cons.IH[OF r] show ?thesis
      proof (elim disjE conjE exE)
        assume "bs' = bs" "bw' = bw"
          "\<forall>(k, m) \<in> set rest. \<forall>l. ?sc m = Inr l \<longrightarrow> \<not> fgt l bs"
        with Inr False km show ?thesis by auto
      next
        fix pre w m' post
        assume h: "rest = pre @ (w, m') # post" "bw' = Some w" "?sc m' = Inr bs'" "fgt bs' bs"
          "\<forall>(k', m') \<in> set pre. \<forall>l'. ?sc m' = Inr l' \<longrightarrow> \<not> fgt l' bs' \<and> l' \<noteq> bs'"
          "\<forall>(k', m') \<in> set post. \<forall>l'. ?sc m' = Inr l' \<longrightarrow> \<not> fgt l' bs'"
        have e: "km # rest = (km # pre) @ (w, m') # post" using h(1) by simp
        have "\<not> fgt l bs'" using h(4) False fgt_trans by blast
        moreover have "l \<noteq> bs'" using h(4) False by blast
        ultimately have "\<forall>(k', m') \<in> set (km # pre). \<forall>l'. ?sc m' = Inr l' \<longrightarrow> \<not> fgt l' bs' \<and> l' \<noteq> bs'"
          using h(5) Inr km by auto
        then show ?thesis using e h(2,3,4,6) by blast
      qed
    qed
  qed
qed

lemma recognize_item_total:
  "\<forall>(k, m) \<in> set ms. hmm_score L m (fst Xl) (snd Xl) \<notin> Inl ` (UNIV - {ValueError}) \<Longrightarrow>
   \<exists>r. recognize_item L ms Xl st = Inr r"
proof (induction ms arbitrary: st)
  case Nil
  then show ?case by (cases st) auto
next
  case (Cons km rest)
  obtain k m where km: "km = (k, m)" by (cases km)
  obtain ph bs bw where st: "st = (ph, bs, bw)" by (cases st)
  from Cons.prems have rest: "\<forall>(k, m) \<in> set rest. hmm_score L m (fst Xl) (snd Xl) \<notin> Inl ` (UNIV - {ValueError})"
    by simp
  show ?case
  proof (cases "hmm_score L m (fst Xl) (snd Xl)")
    case (Inl e)
    with Cons.prems km have "e = ValueError" by auto
    with Inl km st Cons.IH[OF rest] show ?thesis by simp
  next
    case (Inr l)
    with km st Cons.IH[OF rest] show ?thesis by simp
  qed
qed

lemma recognize_loop_items:
  "recognize_loop L models ts (ps, gs) = Inr (ps', gs') \<Longrightarrow>
   length ps' = length ps + length ts \<and> length gs' = length gs + length ts \<and>
   (\<forall>i < length ts. \<exists>bs. recognize_item L models (item_Xlengths (ts ! i))
        (Map.empty, Fl (- 1000000000), None) = Inr (ps' ! (length ps + i), bs, gs' ! (length gs + i))) \<and>
   (\<forall>i < length ps. ps' ! i = ps ! i) \<and> (\<forall>i < length gs. gs' ! i = gs ! i)"
proof (induction ts arbitrary: ps gs)
  case Nil
  then show ?case by simp
next
  case (Cons item rest)
  from Cons.prems obtain p_hash best_score best_word where
    it: "recognize_item L models (item_Xlengths item) (Map.empty, Fl (- 1000000000), None)
          = Inr (p_hash, best_score, best_word)"
    and r: "recognize_loop L models rest (ps @ [p_hash], gs @ [best_word]) = Inr (ps', gs')"
    by (auto split: sum.splits)
  note IH = Cons.IH[OF r]
  from IH have l1: "length ps' = length ps + length (item # rest)"
    and l2: "length gs' = length gs + length (item # rest)" by simp_all
  from IH have keep_p: "\<forall>i < length ps + 1. ps' ! i = (ps @ [p_hash]) ! i"
    and keep_g: "\<forall>i < length gs + 1. gs' ! i = (gs @ [best_word]) ! i" by simp_all
  from keep_p have p0: "ps' ! length ps = p_hash" by (metis less_add_one nth_append_length)
  from keep_g have g0: "gs' ! length gs = best_word" by (metis less_add_one nth_append_length)
  have items: "\<forall>i < length (item # rest). \<exists>bs. recognize_item L models (item_Xlengths ((item # rest) ! i))
        (Map.empty, Fl (- 1000000000), None) = Inr (ps' ! (length ps + i), bs, gs' ! (length gs + i))"
  proof (intro allI impI)
    fix i assume i: "i < length (item # rest)"
    show "\<exists>bs. recognize_item L models (item_Xlengths ((item # rest) ! i))
        (Map.empty, Fl (- 1000000000), None) = Inr (ps' ! (length ps + i), bs, gs' ! (length gs + i))"
    proof (cases i)
      case 0
      with it p0 g0 show ?thesis by simp
    next
      case (Suc j)
      with i have "j < length rest" by simp
      with IH obtain bs where "recognize_item L models (item_Xlengths (rest ! j))
        (Map.empty, Fl (- 1000000000), None) = Inr (ps' ! (length (ps @ [p_hash]) + j), bs, gs' ! (length (gs @ [best_word]) + j))"
        by blast
      with Suc show ?thesis by auto
    qed
  qed
  have "\<forall>i < length ps. ps' ! i = ps ! i"
    using keep_p by (simp add: nth_append)
  moreover have "\<forall>i < length gs. gs' ! i = gs ! i"
    using keep_g by (simp add: nth_append)
  ultimately show ?case using l1 l2 items by blast
qed

lemma recognize_loop_total:
  "\<forall>item \<in> set ts. \<forall>(k, m) \<in> set models.
      hmm_score L m (fst (item_Xlengths item)) (snd (item_Xlengths item)) \<notin> Inl ` (UNIV - {ValueError}) \<Longrightarrow>
   \<exists>r. recognize_loop L models ts acc = Inr r"
proof (induction ts arbitrary: acc)
  case Nil
  then show ?case by (cases acc) auto
next
  case (Cons item rest)
  obtain ps gs where acc: "acc = (ps, gs)" by (cases acc)
  from Cons.prems have "\<forall>(k, m) \<in> set models.
      hmm_score L m (fst (item_Xlengths item)) (snd (item_Xlengths item)) \<notin> Inl ` (UNIV - {ValueError})"
    by simp
  from recognize_item_total[OF this] obtain r where
    "recognize_item L models (item_Xlengths item) (Map.empty, Fl (- 1000000000), None) = Inr r"
    by blast
  moreover obtain p b w where "r = (p, b, w)" by (cases r)
  moreover from Cons.prems have "\<forall>item \<in> set rest. \<forall>(k, m) \<in> set models.
      hmm_score L m (fst (item_Xlengths item)) (snd (item_Xlengths item)) \<notin> Inl ` (UNIV - {ValueError})"
    by simp
  ultimately show ?case using Cons.IH acc by simp
qed

lemma distinct_split_unique:
  "distinct (map fst (a @ (k, v) # b)) \<Longrightarrow> a @ (k, v) # b = a' @ (k, v') # b' \<Longrightarrow>
   a = a' \<and> v = v' \<and> b = b'"
proof (induction a arbitrary: a')
  case Nil
  then show ?case
    by (cases a') (auto simp: image_iff)
next
  case (Cons x a)
  show ?case
  proof (cases a')
    case Nil
    with Cons.prems show ?thesis by (auto simp: image_iff)
  next
    case (Cons y a'')
    with Cons.prems have xy: "x = y" and eq: "a @ (k, v) # b = a'' @ (k, v') # b'"
      by simp_all
    from Cons.prems(1) have "distinct (map fst (a @ (k, v) # b))" by simp
    from Cons.IH[OF this eq] xy Cons show ?thesis by simp
  qed
qed

section \<open>The recognizer: claims\<close>

text \<open>
  Claim C8. For every test item the running best is replaced only when a log-likelihood
  is strictly greater, starting from the sentinel \<open>-1e9\<close> and the guess \<^verbatim>\<open>None\<close>. Hence
  the guess is \<^verbatim>\<open>None\<close> exactly when no score exceeds the sentinel, and otherwise it is
  the word \<open>w\<close> such that no word scores higher and every word before \<open>w\<close> in the
  iteration order of the model dictionary scores differently (so strictly lower, for
  numbers). In particular, of two words with exactly equal log-likelihood, the later one
  is never the guess.
\<close>

theorem recognize_tie_break:
  assumes r: "recognize L models test_set = Inr (probabilities, guesses)"
    and i: "i < num_items test_set"
  shows "((guesses ! i = None \<and>
           (\<forall>(k, m) \<in> set models. \<forall>l.
               hmm_score L m (fst (item_Xlengths (test_set ! i))) (snd (item_Xlengths (test_set ! i))) = Inr l
               \<longrightarrow> \<not> fgt l (Fl (- 1000000000))))
          \<or> (\<exists>pre w m post l. models = pre @ (w, m) # post \<and> guesses ! i = Some w \<and>
                hmm_score L m (fst (item_Xlengths (test_set ! i))) (snd (item_Xlengths (test_set ! i))) = Inr l \<and>
                fgt l (Fl (- 1000000000)) \<and>
                (\<forall>(k', m') \<in> set pre. \<forall>l'.
                    hmm_score L m' (fst (item_Xlengths (test_set ! i))) (snd (item_Xlengths (test_set ! i))) = Inr l'
                    \<longrightarrow> \<not> fgt l' l \<and> l' \<noteq> l) \<and>
                (\<forall>(k', m') \<in> set post. \<forall>l'.
                    hmm_score L m' (fst (item_Xlengths (test_set ! i))) (snd (item_Xlengths (test_set ! i))) = Inr l'
                    \<longrightarrow> \<not> fgt l' l))) \<and>
         (\<forall>pre w1 m1 mid w2 m2 post l.
             distinct (map fst models) \<and> models = pre @ (w1, m1) # mid @ (w2, m2) # post \<and>
             hmm_score L m1 (fst (item_Xlengths (test_set ! i))) (snd (item_Xlengths (test_set ! i))) = Inr l \<and>
             hmm_score L m2 (fst (item_Xlengths (test_set ! i))) (snd (item_Xlengths (test_set ! i))) = Inr l
             \<longrightarrow> guesses ! i \<noteq> Some w2)"
proof -
  let ?sc = "\<lambda>m. hmm_score L m (fst (item_Xlengths (test_set ! i))) (snd (item_Xlengths (test_set ! i)))"
  from r have rl: "recognize_loop L models test_set ([], []) = Inr (probabilities, guesses)"
    by (simp add: recognize_def)
  from recognize_loop_items[OF rl] i obtain bs where
    it: "recognize_item L models (item_Xlengths (test_set ! i))
           (Map.empty, Fl (- 1000000000), None) = Inr (probabilities ! i, bs, guesses ! i)"
    by (auto simp: num_items_def)
  have main: "(guesses ! i = None \<and> (\<forall>(k, m) \<in> set models. \<forall>l. ?sc m = Inr l \<longrightarrow> \<not> fgt l (Fl (- 1000000000))))
          \<or> (\<exists>pre w m post l. models = pre @ (w, m) # post \<and> guesses ! i = Some w \<and>
                ?sc m = Inr l \<and> fgt l (Fl (- 1000000000)) \<and>
                (\<forall>(k', m') \<in> set pre. \<forall>l'. ?sc m' = Inr l' \<longrightarrow> \<not> fgt l' l \<and> l' \<noteq> l) \<and>
                (\<forall>(k', m') \<in> set post. \<forall>l'. ?sc m' = Inr l' \<longrightarrow> \<not> fgt l' l))"
    using recognize_item_best[OF it] by blast
  have tie: "\<forall>pre w1 m1 mid w2 m2 post l.
             distinct (map fst models) \<and> models = pre @ (w1, m1) # mid @ (w2, m2) # post \<and>
             ?sc m1 = Inr l \<and> ?sc m2 = Inr l \<longrightarrow> guesses ! i \<noteq> Some w2"
  proof (intro allI impI notI)
    fix pre w1 m1 mid w2 m2 post l
    assume h: "distinct (map fst models) \<and> models = pre @ (w1, m1) # mid @ (w2, m2) # post \<and>
             ?sc m1 = Inr l \<and> ?sc m2 = Inr l"
      and g: "guesses ! i = Some w2"
    from main g obtain pre' m' post' l' where
      m: "models = pre' @ (w2, m') # post'" "?sc m' = Inr l'"
        "\<forall>(k', m') \<in> set pre'. \<forall>l''. ?sc m' = Inr l'' \<longrightarrow> \<not> fgt l'' l' \<and> l'' \<noteq> l'"
      by auto
    from h have e: "models = (pre @ (w1, m1) # mid) @ (w2, m2) # post" by simp
    from h e have "distinct (map fst ((pre @ (w1, m1) # mid) @ (w2, m2) # post))" by metis
    from distinct_split_unique[OF this] e m(1)
    have "pre @ (w1, m1) # mid = pre'" "m2 = m'" by metis+
    with m(2,3) h show False by auto
  qed
  from main tie show ?thesis by blast
qed

theorem recognize_tie_break_witness:
  "tabulate [''A'', ''B'']
     (recognize (ex_library (\<lambda>n dat. Inr ()) (\<lambda>n dat. Inr (Fl (- 5)))) ex_models ex_test_set)
   = Inr ([[Some (Fl (- 5)), Some (Fl (- 5))], [Some (Fl (- 5)), Some (Fl (- 5))]],
          [Some ''A'', Some ''A''])"
proof -
  let ?L = "ex_library (\<lambda>n dat. Inr ()) (\<lambda>n dat. Inr (Fl (- 5)))"
  have e: "tabulate [''A'', ''B''] (recognize ?L ex_models ex_test_set)
     = Inr ([[Some (Fl (- 5)), Some (Fl (- 5))], [Some (Fl (- 5)), Some (Fl (- 5))]],
            [Some ''A'', Some ''A''])"
    by (simp add: tabulate_def recognize_def ex_library_def ex_models_def ex_test_set_def fgt_def)
  then obtain ps gs where r: "recognize ?L ex_models ex_test_set = Inr (ps, gs)"
    by (auto simp: tabulate_def split: sum.splits)
  have i: "0 < num_items ex_test_set"
    by (simp add: num_items_def ex_test_set_def)
  have "gs ! 0 \<noteq> Some ''B''"
    using recognize_tie_break [OF r i, THEN conjunct2, rule_format,
        of "[]" "''A''" "\<lparr>n_components = 2, params = ()\<rparr>" "[]"
           "''B''" "\<lparr>n_components = 3, params = ()\<rparr>" "[]" "Fl (- 5)"]
    by (simp add: ex_models_def ex_library_def)
  with e show ?thesis by simp
qed

text \<open>
  Claim C9. A \<^verbatim>\<open>ValueError\<close> of a model's \<^verbatim>\<open>score\<close> does not end \<^verbatim>\<open>recognize\<close>. In the
  result, the probability mapping of an item has, for each word, the log-likelihood of
  that word's model when it scores the item and no entry when the score fails, whatever
  the other models do; when every model fails on an item, its mapping is empty and its
  guess is \<^verbatim>\<open>None\<close>. Both result lists have one entry per test item.
\<close>

theorem recognize_failed_score_omitted:
  assumes d: "distinct (map fst models)"
  shows "((\<forall>item \<in> set test_set. \<forall>(k, m) \<in> set models. \<forall>e.
            hmm_score L m (fst (item_Xlengths item)) (snd (item_Xlengths item)) = Inl e \<longrightarrow> e = ValueError)
          \<longrightarrow> (\<exists>r. recognize L models test_set = Inr r)) \<and>
         (\<forall>probabilities guesses i.
            recognize L models test_set = Inr (probabilities, guesses) \<and> i < num_items test_set \<longrightarrow>
            length probabilities = num_items test_set \<and> length guesses = num_items test_set \<and>
            (\<forall>w. (probabilities ! i) w =
               (case map_of models w of
                  None \<Rightarrow> None
                | Some m \<Rightarrow>
                    (case hmm_score L m (fst (item_Xlengths (test_set ! i))) (snd (item_Xlengths (test_set ! i))) of
                       Inr l \<Rightarrow> Some l
                     | Inl e \<Rightarrow> None))) \<and>
            ((\<forall>(k, m) \<in> set models. \<exists>e.
                hmm_score L m (fst (item_Xlengths (test_set ! i))) (snd (item_Xlengths (test_set ! i))) = Inl e)
             \<longrightarrow> probabilities ! i = Map.empty \<and> guesses ! i = None))"
proof (intro conjI allI impI)
  assume "\<forall>item \<in> set test_set. \<forall>(k, m) \<in> set models. \<forall>e.
            hmm_score L m (fst (item_Xlengths item)) (snd (item_Xlengths item)) = Inl e \<longrightarrow> e = ValueError"
  then have "\<forall>item \<in> set test_set. \<forall>(k, m) \<in> set models.
      hmm_score L m (fst (item_Xlengths item)) (snd (item_Xlengths item)) \<notin> Inl ` (UNIV - {ValueError})"
    by fastforce
  from recognize_loop_total[OF this] show "\<exists>r. recognize L models test_set = Inr r"
    by (simp add: recognize_def)
next
  fix probabilities guesses i
  assume h: "recognize L models test_set = Inr (probabilities, guesses) \<and> i < num_items test_set"
  then have r: "recognize_loop L models test_set ([], []) = Inr (probabilities, guesses)"
    and i: "i < length test_set"
    by (simp_all add: recognize_def num_items_def)
  note items = recognize_loop_items[OF r]
  from items show "length probabilities = num_items test_set" by (simp add: num_items_def)
  from items show "length guesses = num_items test_set" by (simp add: num_items_def)
  let ?Xl = "item_Xlengths (test_set ! i)"
  from items i obtain bs where it: "recognize_item L models ?Xl
        (Map.empty, Fl (- 1000000000), None) = Inr (probabilities ! i, bs, guesses ! i)"
    by auto
  have ph: "\<And>w. (probabilities ! i) w =
               (case map_of models w of
                  None \<Rightarrow> None
                | Some m \<Rightarrow>
                    (case hmm_score L m (fst ?Xl) (snd ?Xl) of
                       Inr l \<Rightarrow> Some l
                     | Inl e \<Rightarrow> None))"
    using recognize_item_p_hash[OF d it] by (simp split: option.splits sum.splits)
  fix w
  show "(probabilities ! i) w =
               (case map_of models w of
                  None \<Rightarrow> None
                | Some m \<Rightarrow>
                    (case hmm_score L m (fst ?Xl) (snd ?Xl) of
                       Inr l \<Rightarrow> Some l
                     | Inl e \<Rightarrow> None))"
    by (rule ph)
  assume fail: "\<forall>(k, m) \<in> set models. \<exists>e. hmm_score L m (fst ?Xl) (snd ?Xl) = Inl e"
  show "probabilities ! i = Map.empty"
  proof
    fix v
    show "(probabilities ! i) v = None"
    proof (cases "map_of models v")
      case None
      with ph show ?thesis by simp
    next
      case (Some m)
      then have "(v, m) \<in> set models" by (rule map_of_SomeD)
      with fail obtain e where "hmm_score L m (fst ?Xl) (snd ?Xl) = Inl e" by auto
      with Some ph show ?thesis by simp
    qed
  qed
  from recognize_item_best[OF it] fail show "guesses ! i = None"
    by (elim disjE conjE exE) auto
qed

theorem recognize_failed_score_omitted_witness:
  "distinct (map fst ex_models) \<and>
   tabulate [''A'', ''B'']
     (recognize (ex_library (\<lambda>n dat. Inr ())
        (\<lambda>n dat. if n = 2 \<and> length dat = 2 then Inl ValueError
                  else Inr (Fl (- real (length dat) - of_int n))))
        ex_models ex_test_set)
   = Inr ([[None, Some (Fl (- 5))], [Some (Fl (- 5)), Some (Fl (- 6))]], [Some ''B'', Some ''A'']) \<and>
   tabulate [''A'', ''B'']
     (recognize (ex_library (\<lambda>n dat. Inr ()) (\<lambda>n dat. Inl ValueError)) ex_models ex_test_set)
   = Inr ([[None, None], [None, None]], [None, None])"
proof -
  let ?L0 = "ex_library (\<lambda>n dat. Inr ()) (\<lambda>n dat. Inl ValueError)"
  have d: "distinct (map fst ex_models)"
    by (simp add: ex_models_def)
  have e1: "tabulate [''A'', ''B'']
     (recognize (ex_library (\<lambda>n dat. Inr ())
        (\<lambda>n dat. if n = 2 \<and> length dat = 2 then Inl ValueError
                  else Inr (Fl (- real (length dat) - of_int n))))
        ex_models ex_test_set)
   = Inr ([[None, Some (Fl (- 5))], [Some (Fl (- 5)), Some (Fl (- 6))]], [Some ''B'', Some ''A''])"
    by (simp add: tabulate_def recognize_def ex_library_def ex_models_def ex_test_set_def fgt_def)
  have "\<exists>r. recognize ?L0 ex_models ex_test_set = Inr r"
    using recognize_failed_score_omitted [OF d, of ex_test_set ?L0, THEN conjunct1]
    by (simp add: ex_library_def)
  then obtain ps gs where r: "recognize ?L0 ex_models ex_test_set = Inr (ps, gs)"
    by auto
  have n: "num_items ex_test_set = 2"
    by (simp add: num_items_def ex_test_set_def)
  have fail: "\<And>i. \<forall>(k, m) \<in> set ex_models. \<exists>e.
                hmm_score ?L0 m (fst (item_Xlengths (ex_test_set ! i))) (snd (item_Xlengths (ex_test_set ! i))) = Inl e"
    by (simp add: ex_library_def)
  from recognize_failed_score_omitted [OF d, of ex_test_set ?L0, THEN conjunct2, rule_format, of ps gs 0]
    r n fail [of 0]
  have a0: "length ps = 2 \<and> length gs = 2 \<and> ps ! 0 = Map.empty \<and> gs ! 0 = None"
    by simp
  from recognize_failed_score_omitted [OF d, of ex_test_set ?L0, THEN conjunct2, rule_format, of ps gs 1]
    r n fail [of 1]
  have a1: "ps ! 1 = Map.empty \<and> gs ! 1 = None"
    by simp
  from a0 a1 have "ps = [Map.empty, Map.empty]" "gs = [None, None]"
    by (auto simp: list_eq_iff_nth_eq less_Suc_eq numeral_2_eq_2)
  with r have "tabulate [''A'', ''B''] (recognize ?L0 ex_models ex_test_set)
     = Inr ([[None, None], [None, None]], [None, None])"
    by (simp add: tabulate_def)
  with d e1 show ?thesis by simp
qed

text \<open>
  Claim C10. A guess of \<^verbatim>\<open>None\<close> does not mean that no model scored the item: when every
  model scores the item and no log-likelihood exceeds the sentinel \<open>-1e9\<close>, the mapping
  of the item has an entry for every word and its guess is \<^verbatim>\<open>None\<close>. The concrete
  instance after the theorem is such an input.
\<close>

theorem recognize_absent_guess_with_scores:
  assumes d: "distinct (map fst models)"
    and r: "recognize L models test_set = Inr (probabilities, guesses)"
    and i: "i < num_items test_set"
    and ne: "models \<noteq> []"
    and low: "\<forall>(k, m) \<in> set models. \<exists>l.
        hmm_score L m (fst (item_Xlengths (test_set ! i))) (snd (item_Xlengths (test_set ! i))) = Inr l \<and>
        \<not> fgt l (Fl (- 1000000000))"
  shows "dom (probabilities ! i) = fst ` set models \<and> probabilities ! i \<noteq> Map.empty \<and>
         guesses ! i = None"
proof -
  let ?Xl = "item_Xlengths (test_set ! i)"
  from r have rl: "recognize_loop L models test_set ([], []) = Inr (probabilities, guesses)"
    by (simp add: recognize_def)
  from recognize_loop_items[OF rl] i obtain bs where
    it: "recognize_item L models ?Xl (Map.empty, Fl (- 1000000000), None)
           = Inr (probabilities ! i, bs, guesses ! i)"
    by (auto simp: num_items_def)
  have ph: "\<And>w. (probabilities ! i) w =
       (case map_of models w of None \<Rightarrow> None
        | Some m \<Rightarrow> (case hmm_score L m (fst ?Xl) (snd ?Xl) of Inr l \<Rightarrow> Some l | Inl e \<Rightarrow> None))"
    using recognize_item_p_hash[OF d it] by (simp split: option.splits sum.splits)
  have dm: "dom (probabilities ! i) = fst ` set models"
  proof (intro set_eqI iffI)
    fix w assume "w \<in> dom (probabilities ! i)"
    with ph[of w] have "map_of models w \<noteq> None" by (auto split: option.splits)
    then show "w \<in> fst ` set models" by (simp add: map_of_eq_None_iff)
  next
    fix w assume "w \<in> fst ` set models"
    then obtain m where m: "map_of models w = Some m"
      by (metis map_of_eq_None_iff not_Some_eq)
    then have "(w, m) \<in> set models" by (rule map_of_SomeD)
    with low obtain l where "hmm_score L m (fst ?Xl) (snd ?Xl) = Inr l" by auto
    with m ph[of w] show "w \<in> dom (probabilities ! i)" by auto
  qed
  from ne have "fst ` set models \<noteq> {}" by simp
  with dm have nonempty: "probabilities ! i \<noteq> Map.empty" by auto
  from recognize_item_best[OF it] low have "guesses ! i = None"
    by (elim disjE conjE exE) auto
  with dm nonempty show ?thesis by simp
qed

theorem recognize_absent_guess_with_scores_witness:
  "tabulate [''A'', ''B'']
     (recognize (ex_library (\<lambda>n dat. Inr ()) (\<lambda>n dat. Inr (Fl (- 2000000000)))) ex_models ex_test_set)
   = Inr ([[Some (Fl (- 2000000000)), Some (Fl (- 2000000000))],
           [Some (Fl (- 2000000000)), Some (Fl (- 2000000000))]],
          [None, None])"
proof -
  let ?L = "ex_library (\<lambda>n dat. Inr ()) (\<lambda>n dat. Inr (Fl (- 2000000000)))"
  have e: "tabulate [''A'', ''B''] (recognize ?L ex_models ex_test_set)
     = Inr ([[Some (Fl (- 2000000000)), Some (Fl (- 2000000000))],
           [Some (Fl (- 2000000000)), Some (Fl (- 2000000000))]],
          [None, None])"
    by (simp add: tabulate_def recognize_def ex_library_def ex_models_def ex_test_set_def fgt_def)
  then obtain ps gs where r: "recognize ?L ex_models ex_test_set = Inr (ps, gs)"
    by (auto simp: tabulate_def split: sum.splits)
  have d: "distinct (map fst ex_models)"
    by (simp add: ex_models_def)
  have i: "0 < num_items ex_test_set"
    by (simp add: num_items_def ex_test_set_def)
  have ne: "ex_models \<noteq> []"
    by (simp add: ex_models_def)
  have low: "\<forall>(k, m) \<in> set ex_models. \<exists>l.
        hmm_score ?L m (fst (item_Xlengths (ex_test_set ! 0))) (snd (item_Xlengths (ex_test_set ! 0))) = Inr l \<and>
        \<not> fgt l (Fl (- 1000000000))"
    by (simp add: ex_models_def ex_library_def fgt_def)
  from recognize_absent_guess_with_scores [OF d r i ne low]
  have "ps ! 0 \<noteq> Map.empty \<and> gs ! 0 = None" by simp
  with e show ?thesis by simp
qed

section \<open>SelectorCV: the data a fold is scored on\<close>



section \<open>SelectorCV: the fold count\<close>

text \<open>
  Claim C7. In SelectorCV the number of splits handed to \<^verbatim>\<open>KFold\<close> is 3 when the word has
  three or more training sequences and the number of sequences otherwise, so it never
  exceeds the number of sequences; and for every candidate state count the folds that
  are iterated are those of \<^verbatim>\<open>KFold\<close> with exactly that number of splits.
\<close>

theorem CV_fold_count:
  "split_count seqs = (if 3 \<le> length seqs then 3 else length seqs) \<and>
   split_count seqs \<le> length seqs \<and>
   CV_logLs L self cur =
     (case KFold_split L (min 3 (length (sequences self))) (sequences self) of
        Inl e \<Rightarrow> Inl e
      | Inr folds \<Rightarrow> CV_folds L self cur [] folds)"
proof -
  have "split_count (sequences self) = min 3 (length (sequences self))"
    by (simp add: split_count_def)
  then show ?thesis
    by (simp add: split_count_def CV_logLs_def)
qed

theorem CV_fold_count_witness:
  "split_count [[1::nat], [2]] = 2 \<and> split_count [[1::nat], [2], [3], [4]] = 3"
  using CV_fold_count [THEN conjunct1, of "[[1::nat], [2]]"]
    CV_fold_count [THEN conjunct1, of "[[1::nat], [2], [3], [4]]"]
  by simp

end
